theory Spec2Isabelle
  imports Main
begin

section \<open>The prompt filter of \<^verbatim>\<open>_pages/main.py\<close>\<close>

text \<open>
  The source is one compiled pattern, one replacement callback and one filter:
  \<^verbatim>\<open>
  BYEXMAPLE_PROMT_RE=re.compile(r"^(>>|\.\.|=>)( |$)", re.M)

  def byexample_repl(matchobj):
      if matchobj.group(1) == '=>': return '#=> '
      else: return ''

  def remove_code_promt(text):
      return BYEXMAPLE_PROMT_RE.sub(byexample_repl, text)
  \<close>
  A text is a \<open>string\<close>. The three tokens, the space and the newline are ASCII, and no byte
  of a multi-byte UTF-8 character equals an ASCII byte, so matching on bytes and matching
  on code points rewrite the same positions.
\<close>

subsection \<open>The pattern\<close>

definition newline :: char where
  "newline = CHR 0x0A"

definition space :: char where
  "space = CHR 0x20"

text \<open>
  The scan of \<open>sub\<close> stands at a position of the text. The model keeps what the pattern can
  see from there: the character before the position (\<open>None\<close> at the start of the text) and
  the text from the position on.
\<close>

text \<open>\<^verbatim>\<open>^\<close> under \<^verbatim>\<open>re.M\<close>: the start of the text, or right after a newline.\<close>

definition caret_M :: "char option \<Rightarrow> bool" where
  "caret_M prev = (case prev of None \<Rightarrow> True | Some c \<Rightarrow> c = newline)"

text \<open>\<^verbatim>\<open>$\<close> under \<^verbatim>\<open>re.M\<close>: the end of the text, or right before a newline.\<close>

definition dollar_M :: "string \<Rightarrow> bool" where
  "dollar_M rest = (case rest of [] \<Rightarrow> True | c # _ \<Rightarrow> c = newline)"

text \<open>
  Group 1, \<^verbatim>\<open>(>>|\.\.|=>)\<close>: the alternatives in the order of the pattern. They start with
  different characters, so at most one of them fits and backtracking into the group never
  finds a second way.
\<close>

definition group1_alt :: "string \<Rightarrow> string option" where
  "group1_alt s =
     (if take 2 s = ''>>'' then Some ''>>''
      else if take 2 s = ''..'' then Some ''..''
      else if take 2 s = ''=>'' then Some ''=>''
      else None)"

text \<open>Group 2, \<^verbatim>\<open>( |$)\<close>: one space, or else the zero-width end of line.\<close>

definition group2_alt :: "string \<Rightarrow> string option" where
  "group2_alt s =
     (if take 1 s = [space] then Some [space]
      else if dollar_M s then Some []
      else None)"

text \<open>
  A match object is the list of its groups: group 0 is the whole match, then group 1 and
  group 2. Both groups of this pattern take part in every match.
\<close>

type_synonym matchobj = "string list"

definition BYEXMAPLE_PROMT_RE :: "char option \<Rightarrow> string \<Rightarrow> matchobj option" where
  "BYEXMAPLE_PROMT_RE prev s =
     (if caret_M prev then
        (case group1_alt s of
           None \<Rightarrow> None
         | Some g1 \<Rightarrow>
             (case group2_alt (drop (length g1) s) of
                None \<Rightarrow> None
              | Some g2 \<Rightarrow> Some [g1 @ g2, g1, g2]))
      else None)"

subsection \<open>The replacement callback\<close>

datatype error = IndexError

text \<open>\<^verbatim>\<open>matchobj.group(n)\<close> raises \<^verbatim>\<open>IndexError\<close> for a group the pattern does not have.\<close>

definition group :: "matchobj \<Rightarrow> nat \<Rightarrow> error + string" where
  "group m n = (if n < length m then Inr (m ! n) else Inl IndexError)"

definition byexample_repl :: "matchobj \<Rightarrow> error + string" where
  "byexample_repl matchobj =
     (case group matchobj 1 of
        Inl e \<Rightarrow> Inl e
      | Inr g \<Rightarrow> if g = ''=>'' then Inr ''#=> '' else Inr '''')"

subsection \<open>The substitution\<close>

text \<open>
  \<^verbatim>\<open>pattern.sub(repl, text)\<close> scans the text from left to right. Where the pattern matches,
  the result of the callback is written and the scan goes on behind the match; elsewhere the
  character is copied and the scan moves by one. The look-behind of \<^verbatim>\<open>^\<close> reads the text
  as it was given, so the character before the next position is the last one of the match.
  An exception of the callback ends the call.
\<close>

function re_sub :: "char option \<Rightarrow> string \<Rightarrow> error + string" where
  "re_sub prev [] = Inr []"
| "re_sub prev (c # cs) =
     (case BYEXMAPLE_PROMT_RE prev (c # cs) of
        None \<Rightarrow>
          (case re_sub (Some c) cs of
             Inl e \<Rightarrow> Inl e
           | Inr out \<Rightarrow> Inr (c # out))
      | Some m \<Rightarrow>
          (case byexample_repl m of
             Inl e \<Rightarrow> Inl e
           | Inr r \<Rightarrow>
               (case re_sub (Some (last (m ! 0))) (drop (length (m ! 0)) (c # cs)) of
                  Inl e \<Rightarrow> Inl e
                | Inr out \<Rightarrow> Inr (r @ out))))"
  by pat_completeness auto

termination
  by (relation "measure (\<lambda>(prev, s). length s)")
    (auto simp: BYEXMAPLE_PROMT_RE_def group1_alt_def group2_alt_def
      split: if_splits option.splits)

definition remove_code_promt :: "string \<Rightarrow> error + string" where
  "remove_code_promt text = re_sub None text"

subsection \<open>Lines\<close>

text \<open>\<^verbatim>\<open>text.split('\\n')\<close>: the lines of a text; a text with \<open>n\<close> newlines has \<open>n + 1\<close> lines.\<close>

fun split_lines :: "string \<Rightarrow> string list" where
  "split_lines [] = [[]]"
| "split_lines (c # cs) =
     (if c = newline then [] # split_lines cs
      else (c # hd (split_lines cs)) # tl (split_lines cs))"

text \<open>\<^verbatim>\<open>'\\n'.join(lines)\<close>.\<close>

fun join_lines :: "string list \<Rightarrow> string" where
  "join_lines [] = []"
| "join_lines [l] = l"
| "join_lines (l # l' # ls) = l @ newline # join_lines (l' # ls)"

subsection \<open>The rule of the specification, line by line\<close>

definition tokens :: "string list" where
  "tokens = [''>>'', ''..'', ''=>'']"

text \<open>
  A line begins with a token followed by a space or by the end of the line. A line holds no
  newline, so its end of line is its end.
\<close>

definition begins_with :: "string \<Rightarrow> string \<Rightarrow> bool" where
  "begins_with tok line = (line = tok \<or> take (length tok + 1) line = tok @ [space])"

text \<open>
  The replacement: the empty string for \<^verbatim>\<open>>>\<close> and \<^verbatim>\<open>..\<close>, the literal \<^verbatim>\<open>#=> \<close> for \<^verbatim>\<open>=>\<close>.
\<close>

definition spec_replacement :: "string \<Rightarrow> string" where
  "spec_replacement tok = (if tok = ''=>'' then ''#=> '' else [])"

text \<open>
  The matched span is the token and, if present, the one following space: at most three
  characters from the start of the line.
\<close>

definition spec_rewrite_line :: "string \<Rightarrow> string" where
  "spec_rewrite_line line =
     (if begins_with ''>>'' line then spec_replacement ''>>'' @ drop 3 line
      else if begins_with ''..'' line then spec_replacement ''..'' @ drop 3 line
      else if begins_with ''=>'' line then spec_replacement ''=>'' @ drop 3 line
      else line)"

definition spec_line_by_line :: "string \<Rightarrow> string" where
  "spec_line_by_line text = join_lines (map spec_rewrite_line (split_lines text))"

text \<open>A line that begins with one of the three prompts.\<close>

definition prompt_line :: "string \<Rightarrow> bool" where
  "prompt_line line =
     (begins_with ''>>'' line \<or> begins_with ''..'' line \<or> begins_with ''=>'' line)"

text \<open>
  A line with a deleted prompt (\<^verbatim>\<open>>>\<close> or \<^verbatim>\<open>..\<close>) whose remaining text begins with a prompt
  again, such as \<^verbatim>\<open>>> >> x\<close>.
\<close>

definition stacked_prompt :: "string \<Rightarrow> bool" where
  "stacked_prompt line =
     ((begins_with ''>>'' line \<or> begins_with ''..'' line) \<and> prompt_line (drop 3 line))"

definition carriage_return :: char where
  "carriage_return = CHR 0x0D"

section \<open>Lines of a text\<close>

lemma split_lines_not_Nil [simp]: "split_lines s \<noteq> []"
  by (cases s) simp_all

lemma join_lines_Cons: "ls \<noteq> [] \<Longrightarrow> join_lines (l # ls) = l @ newline # join_lines ls"
  by (cases ls) simp_all

lemma join_lines_Cons_Cons: "join_lines ((c # l) # ls) = c # join_lines (l # ls)"
  by (cases ls) simp_all

lemma join_lines_append: "join_lines ((a @ l) # ls) = a @ join_lines (l # ls)"
  by (induction a) (simp_all add: join_lines_Cons_Cons)

lemma join_split_lines: "join_lines (split_lines s) = s"
proof (induction s)
  case Nil
  show ?case by simp
next
  case (Cons c cs)
  obtain l ls where sp: "split_lines cs = l # ls"
    by (cases "split_lines cs") simp_all
  with Cons show ?case
    by (simp add: join_lines_Cons join_lines_Cons_Cons)
qed

lemma split_lines_no_newline: "l \<in> set (split_lines s) \<Longrightarrow> newline \<notin> set l"
proof (induction s arbitrary: l)
  case Nil
  then show ?case by simp
next
  case (Cons c cs)
  obtain l' ls where sp: "split_lines cs = l' # ls"
    by (cases "split_lines cs") simp_all
  with Cons show ?case
    by (auto split: if_splits)
qed

lemma split_join_lines:
  "ls \<noteq> [] \<Longrightarrow> \<forall>l \<in> set ls. newline \<notin> set l \<Longrightarrow> split_lines (join_lines ls) = ls"
proof (induction ls rule: join_lines.induct)
  case 1
  then show ?case by simp
next
  case (2 l)
  then have "newline \<notin> set l" by simp
  then show ?case by (induction l) auto
next
  case (3 l l' ls)
  then have nl: "newline \<notin> set l" and ih: "split_lines (join_lines (l' # ls)) = l' # ls"
    by simp_all
  from nl show ?case
    by (induction l) (auto simp: ih)
qed

lemma length_split_lines: "length (split_lines s) = Suc (count_list s newline)"
  by (induction s) auto

lemma hd_split_lines_Cons:
  "hd (split_lines s) = a # l \<longleftrightarrow> (\<exists>r. s = a # r \<and> a \<noteq> newline \<and> hd (split_lines r) = l)"
  by (cases s) auto

lemma hd_split_lines_Nil: "hd (split_lines s) = [] \<longleftrightarrow> s = [] \<or> (\<exists>r. s = newline # r)"
  by (cases s) auto

section \<open>What the pattern matches\<close>

lemma tokens_simps:
  "tok \<in> set tokens \<longleftrightarrow> tok = ''>>'' \<or> tok = ''..'' \<or> tok = ''=>''"
  by (auto simp: tokens_def)

lemma take1_eq: "take (Suc 0) s = [a] \<longleftrightarrow> (\<exists>r. s = a # r)"
  by (cases s) auto

lemma take2_eq: "take 2 s = [a, b] \<longleftrightarrow> (\<exists>r. s = a # b # r)"
  by (cases s; cases "tl s") (auto simp: numeral_2_eq_2)

lemma take3_eq: "take (Suc (Suc (Suc 0))) s = [a, b, c] \<longleftrightarrow> (\<exists>r. s = a # b # c # r)"
  by (cases s; cases "tl s"; cases "tl (tl s)") auto

lemma match_forms:
  assumes "BYEXMAPLE_PROMT_RE prev s = Some m"
  shows "caret_M prev \<and> (\<exists>tok \<in> set tokens.
           (\<exists>r. s = tok @ space # r \<and> m = [tok @ [space], tok, [space]])
         \<or> ((s = tok \<or> (\<exists>r. s = tok @ newline # r)) \<and> m = [tok, tok, []]))"
  using assms
  by (auto simp: BYEXMAPLE_PROMT_RE_def group1_alt_def group2_alt_def dollar_M_def tokens_simps
      take2_eq take1_eq split: if_splits option.splits list.splits)

lemma nomatch_forms:
  assumes "BYEXMAPLE_PROMT_RE prev s = None" and "caret_M prev" and "tok \<in> set tokens"
  shows "\<not> begins_with tok (hd (split_lines s))"
  using assms
  by (auto simp: BYEXMAPLE_PROMT_RE_def group1_alt_def group2_alt_def dollar_M_def tokens_simps
      take2_eq take1_eq take3_eq begins_with_def hd_split_lines_Cons hd_split_lines_Nil
      split: if_splits option.splits list.splits)

lemma byexample_repl_groups: "byexample_repl [g0, tok, g2] = Inr (spec_replacement tok)"
  by (simp add: byexample_repl_def group_def spec_replacement_def)

section \<open>The substitution, line by line\<close>

lemma spec_rewrite_line_Nil [simp]: "spec_rewrite_line [] = []"
  by (simp add: spec_rewrite_line_def begins_with_def)

lemma spec_rewrite_line_id:
  "\<forall>tok \<in> set tokens. \<not> begins_with tok l \<Longrightarrow> spec_rewrite_line l = l"
  by (simp add: spec_rewrite_line_def tokens_simps)

lemma spec_rewrite_line_tok_space:
  "tok \<in> set tokens \<Longrightarrow> spec_rewrite_line (tok @ space # l) = spec_replacement tok @ l"
  by (auto simp: spec_rewrite_line_def begins_with_def tokens_simps spec_replacement_def)

lemma spec_rewrite_line_tok:
  "tok \<in> set tokens \<Longrightarrow> spec_rewrite_line tok = spec_replacement tok"
  by (auto simp: spec_rewrite_line_def begins_with_def tokens_simps spec_replacement_def)

lemma split_lines_tok:
  "tok \<in> set tokens \<Longrightarrow> split_lines (tok @ s) = (tok @ hd (split_lines s)) # tl (split_lines s)"
  by (auto simp: tokens_simps newline_def)

lemma re_sub_lines:
  "re_sub prev s = Inr (join_lines
     (if caret_M prev then map spec_rewrite_line (split_lines s)
      else hd (split_lines s) # map spec_rewrite_line (tl (split_lines s))))"
proof (induction s arbitrary: prev rule: length_induct)
  case (1 s)
  note IH = "1.IH" [rule_format]
  show ?case
  proof (cases s)
    case Nil
    then show ?thesis by simp
  next
    case (Cons c cs)
    have step: "re_sub (Some c) cs = Inr (join_lines
       (if c = newline then map spec_rewrite_line (split_lines cs)
        else hd (split_lines cs) # map spec_rewrite_line (tl (split_lines cs))))"
      using IH [of cs "Some c"] Cons by (simp add: caret_M_def)
    have copy: "join_lines (hd (split_lines s) # map spec_rewrite_line (tl (split_lines s)))
      = c # join_lines
       (if c = newline then map spec_rewrite_line (split_lines cs)
        else hd (split_lines cs) # map spec_rewrite_line (tl (split_lines cs)))"
      using Cons by (simp add: join_lines_Cons join_lines_Cons_Cons)
    show ?thesis
    proof (cases "BYEXMAPLE_PROMT_RE prev s")
      case None
      have "re_sub prev s
          = Inr (join_lines (hd (split_lines s) # map spec_rewrite_line (tl (split_lines s))))"
        using None Cons step copy by simp
      moreover have "caret_M prev \<Longrightarrow> spec_rewrite_line (hd (split_lines s)) = hd (split_lines s)"
        using nomatch_forms [OF None] spec_rewrite_line_id by blast
      moreover have "map spec_rewrite_line (split_lines s)
         = spec_rewrite_line (hd (split_lines s)) # map spec_rewrite_line (tl (split_lines s))"
        by (cases "split_lines s") simp_all
      ultimately show ?thesis by simp
    next
      case (Some m)
      have unfold: "re_sub prev s =
        (case byexample_repl m of
           Inl e \<Rightarrow> Inl e
         | Inr rp \<Rightarrow>
             (case re_sub (Some (last (m ! 0))) (drop (length (m ! 0)) s) of
                Inl e \<Rightarrow> Inl e
              | Inr out \<Rightarrow> Inr (rp @ out)))"
        using Some unfolding Cons by simp
      from match_forms [OF Some] obtain tok where bol: "caret_M prev" and tok: "tok \<in> set tokens"
        and forms: "(\<exists>r. s = tok @ space # r \<and> m = [tok @ [space], tok, [space]])
           \<or> ((s = tok \<or> (\<exists>r. s = tok @ newline # r)) \<and> m = [tok, tok, []])"
        by blast
      have len: "length tok = 2" and last: "last tok \<noteq> newline"
        using tok by (auto simp: tokens_simps newline_def)
      from forms consider
          (sp) r where "s = tok @ space # r" "m = [tok @ [space], tok, [space]]"
        | (eot) "s = tok" "m = [tok, tok, []]"
        | (eol) r where "s = tok @ newline # r" "m = [tok, tok, []]"
        by blast
      then show ?thesis
      proof cases
        case sp
        have "re_sub (Some space) r = Inr (join_lines
            (hd (split_lines r) # map spec_rewrite_line (tl (split_lines r))))"
          using IH [of r "Some space"] sp(1) by (simp add: caret_M_def newline_def space_def)
        then have "re_sub prev s = Inr (spec_replacement tok @ join_lines
            (hd (split_lines r) # map spec_rewrite_line (tl (split_lines r))))"
          using unfold sp len by (simp add: byexample_repl_groups)
        moreover have "split_lines s = (tok @ space # hd (split_lines r)) # tl (split_lines r)"
          using sp(1) tok by (simp add: split_lines_tok newline_def space_def)
        ultimately show ?thesis
          using bol tok by (simp add: spec_rewrite_line_tok_space join_lines_append)
      next
        case eot
        then show ?thesis
          using unfold bol tok len
          by (simp add: byexample_repl_groups spec_rewrite_line_tok
              split_lines_tok [of tok "[]", simplified])
      next
        case eol
        have lt: "length (newline # r) < length s"
          using eol(1) len by simp
        have nc: "\<not> caret_M (Some (last tok))"
          using last by (simp add: caret_M_def)
        have "re_sub (Some (last tok)) (newline # r) = Inr (join_lines
            (hd (split_lines (newline # r))
              # map spec_rewrite_line (tl (split_lines (newline # r)))))"
          using IH [OF lt, of "Some (last tok)"] nc by (simp only: if_False)
        then have "re_sub prev s
            = Inr (spec_replacement tok @ newline # join_lines (map spec_rewrite_line (split_lines r)))"
          using unfold eol len
          by (simp add: byexample_repl_groups join_lines_Cons del: re_sub.simps)
        moreover have "split_lines s = tok # split_lines r"
          using eol(1) tok by (simp add: split_lines_tok)
        ultimately show ?thesis
          using bol tok by (simp add: spec_rewrite_line_tok join_lines_Cons)
      qed
    qed
  qed
qed

lemma remove_code_promt_lines:
  "remove_code_promt text = Inr (join_lines (map spec_rewrite_line (split_lines text)))"
  by (simp add: remove_code_promt_def re_sub_lines caret_M_def)

lemma spec_rewrite_line_no_newline:
  assumes "newline \<notin> set l"
  shows "newline \<notin> set (spec_rewrite_line l)"
proof -
  have "newline \<notin> set (drop 3 l)"
    using assms by (meson in_set_dropD)
  then show ?thesis
    using assms by (simp add: spec_rewrite_line_def spec_replacement_def newline_def)
qed

lemma split_lines_rewritten:
  "split_lines (join_lines (map spec_rewrite_line (split_lines text)))
     = map spec_rewrite_line (split_lines text)"
proof (rule split_join_lines)
  show "map spec_rewrite_line (split_lines text) \<noteq> []"
    by simp
  show "\<forall>l \<in> set (map spec_rewrite_line (split_lines text)). newline \<notin> set l"
    using split_lines_no_newline spec_rewrite_line_no_newline by fastforce
qed

section \<open>The claims\<close>

text \<open>
  C10: applied to the empty string, the filter returns the empty string.
\<close>

theorem remove_code_promt_empty: "remove_code_promt [] = Inr []"
  by (simp add: remove_code_promt_def)

text \<open>
  C6: the filter is total and never fails: for every text the call returns a string, and
  the \<^verbatim>\<open>IndexError\<close> of \<^verbatim>\<open>matchobj.group\<close> is never raised.
\<close>

theorem remove_code_promt_total: "\<exists>out. remove_code_promt text = Inr out"
  by (simp add: remove_code_promt_lines)

text \<open>
  C9: the output of the filter holds exactly as many newline characters as the input.
\<close>

theorem remove_code_promt_newlines:
  "\<exists>out. remove_code_promt text = Inr out \<and> count_list out newline = count_list text newline"
proof -
  let ?out = "join_lines (map spec_rewrite_line (split_lines text))"
  have "length (split_lines ?out) = length (split_lines text)"
    by (simp add: split_lines_rewritten)
  then have "count_list ?out newline = count_list text newline"
    by (simp add: length_split_lines)
  then show ?thesis
    by (simp add: remove_code_promt_lines)
qed

text \<open>
  C5: the one global multiline substitution equals the line-by-line implementation that
  splits the text at the newlines, rewrites the start of each line on its own and joins the
  lines again. Every match starts at a line boundary, is the next two or three characters
  of the text and holds no newline, so no two matches overlap.
\<close>

theorem remove_code_promt_line_by_line:
  "remove_code_promt text = Inr (spec_line_by_line text) \<and>
   (BYEXMAPLE_PROMT_RE prev s = Some m \<longrightarrow>
      caret_M prev \<and> m ! 0 = take (length (m ! 0)) s \<and>
      2 \<le> length (m ! 0) \<and> length (m ! 0) \<le> 3 \<and> newline \<notin> set (m ! 0))"
proof -
  have "caret_M prev \<and> m ! 0 = take (length (m ! 0)) s \<and>
      2 \<le> length (m ! 0) \<and> length (m ! 0) \<le> 3 \<and> newline \<notin> set (m ! 0)"
    if "BYEXMAPLE_PROMT_RE prev s = Some m"
    using match_forms [OF that]
    by (auto simp: tokens_simps newline_def space_def)
  then show ?thesis
    by (simp add: remove_code_promt_lines spec_line_by_line_def)
qed

theorem remove_code_promt_line_by_line_witness:
  "BYEXMAPLE_PROMT_RE (Some newline) ''=> 1'' = Some [''=> '', ''=>'', '' ''] \<and>
   remove_code_promt ''>> a\<newline>=> 1'' = Inr (spec_line_by_line ''>> a\<newline>=> 1'') \<and>
   caret_M (Some newline) \<and> length ([''=> '', ''=>'', '' ''] ! 0) \<le> 3"
proof -
  have h: "BYEXMAPLE_PROMT_RE (Some newline) ''=> 1'' = Some [''=> '', ''=>'', '' '']"
    by (simp add: BYEXMAPLE_PROMT_RE_def caret_M_def group1_alt_def group2_alt_def space_def)
  show ?thesis
    using h remove_code_promt_line_by_line
      [of "''>> a\<newline>=> 1''" "Some newline" "''=> 1''" "[''=> '', ''=>'', '' '']"]
    by simp
qed

end
